theory Spec2Isabelle
  imports Main
begin

section \<open>The line splitter of the SDL3 client: \<open>create_new_line_utf8strs\<close>\<close>

text \<open>
  Source: \<^verbatim>\<open>client/gui-sdl3/utf8string.c\<close>. The function scans a NUL-terminated text and
  stores one heap string per line into a static array of 512 pointers, which it returns.

  \<^item> The text is a \<open>string\<close> (the bytes before the terminator); the memory the C pointer
    walks over is that text followed by one NUL byte. A read outside this memory is the
    error \<open>ReadOutOfBounds\<close>.
  \<^item> A slot of the static array is a \<open>string option\<close>: \<open>None\<close> is the NULL pointer,
    \<open>Some l\<close> a pointer to a fresh block holding the bytes \<open>l\<close> and a terminating NUL.
    Every block is fresh, so slots never alias and are modelled by their contents.
  \<^item> The array outlives the call, so the function takes the array as it was left by the
    previous call and returns it updated. A write to a slot with index 512 or more is the
    error \<open>BufferOverflow\<close>.
  \<^item> \<open>len\<close> and \<open>count\<close> are \<^verbatim>\<open>size_t\<close> in the source. \<open>len\<close> never exceeds the length of
    the text and \<open>count\<close> never exceeds 512 in a run without error, so they cannot wrap and
    are natural numbers here; \<open>pstr\<close> and \<open>start\<close> are offsets into the memory.
\<close>

subsection \<open>Data\<close>

datatype error = ReadOutOfBounds | BufferOverflow

type_synonym entry = "string option"

type_synonym buffer = "entry list"

abbreviation NUL :: char where
  "NUL \<equiv> CHR 0x00"

abbreviation NL :: char where
  "NL \<equiv> CHR 0x0A"

text \<open>\<^verbatim>\<open>static char *buf[512];\<close> A static array starts with every slot NULL.\<close>

definition buf_slots :: nat where
  "buf_slots = 512"

definition initial_buf :: buffer where
  "initial_buf = replicate buf_slots None"

text \<open>The local variables of the function, and the static array.\<close>

record state =
  pstr :: nat
  start :: nat
  len :: nat
  count :: nat
  buf :: buffer

subsection \<open>The statements of the loop\<close>

text \<open>\<^verbatim>\<open>*p\<close> for an offset \<open>p\<close> into the memory \<open>mem\<close>.\<close>

definition deref :: "string \<Rightarrow> nat \<Rightarrow> error + char" where
  "deref mem p = (if p < length mem then Inr (mem ! p) else Inl ReadOutOfBounds)"

text \<open>
  Modelled from the spec: \<^verbatim>\<open>fc_calloc\<close> is declared in \<^verbatim>\<open>utility/mem.h\<close>, outside the source
  file. It is the calloc-equivalent allocation facility of the program: it returns a fresh
  zero-initialised block of the requested size, and the function does not check its result
  (allocation failure is taken never to occur).

  \<^verbatim>\<open>buf[count] = fc_calloc(len + 1, 1); memcpy(buf[count], start, len);\<close>
  The slot is written first, then \<open>len\<close> bytes are read from \<open>start\<close>. The block holds the
  \<open>len\<close> bytes copied and a zero byte after them; the slot is modelled by the bytes copied.
\<close>

definition put_line :: "string \<Rightarrow> state \<Rightarrow> error + state" where
  "put_line mem st =
     (if \<not> count st < buf_slots then Inl BufferOverflow
      else if \<not> start st + len st \<le> length mem then Inl ReadOutOfBounds
      else Inr (st\<lparr>buf := (buf st)[count st := Some (take (len st) (drop (start st) mem))]\<rparr>))"

text \<open>\<^verbatim>\<open>buf[count] = fc_calloc(2, 1); buf[count][0] = ' ';\<close>\<close>

definition put_space :: "state \<Rightarrow> error + state" where
  "put_space st =
     (if \<not> count st < buf_slots then Inl BufferOverflow
      else Inr (st\<lparr>buf := (buf st)[count st := Some '' '']\<rparr>))"

text \<open>\<^verbatim>\<open>buf[count] = NULL;\<close>\<close>

definition put_null :: "state \<Rightarrow> error + state" where
  "put_null st =
     (if \<not> count st < buf_slots then Inl BufferOverflow
      else Inr (st\<lparr>buf := (buf st)[count st := None]\<rparr>))"

text \<open>
  The first statement of the loop body (source lines 38 to 51):
  \<^verbatim>\<open>if (*pstr == '\n') { if (len) {...} else {...} start = pstr + 1; len = 0; count++; }
  else { len++; }\<close>
\<close>

definition scan_char :: "string \<Rightarrow> state \<Rightarrow> error + state" where
  "scan_char mem st =
     (case deref mem (pstr st) of
        Inl e \<Rightarrow> Inl e
      | Inr c \<Rightarrow>
          if c = NL then
            (case (if len st \<noteq> 0 then put_line mem st else put_space st) of
               Inl e \<Rightarrow> Inl e
             | Inr st' \<Rightarrow> Inr (st'\<lparr>start := pstr st' + 1, len := 0, count := count st' + 1\<rparr>))
          else Inr (st\<lparr>len := len st + 1\<rparr>))"

text \<open>
  The last statement of the loop body (source lines 55 to 64):
  \<^verbatim>\<open>if (*pstr == '\0') { if (len != 0) {...; count++; } buf[count] = NULL; start = pstr; }\<close>
\<close>

definition at_terminator :: "string \<Rightarrow> state \<Rightarrow> error + state" where
  "at_terminator mem st =
     (case deref mem (pstr st) of
        Inl e \<Rightarrow> Inl e
      | Inr c \<Rightarrow>
          if c = NUL then
            (case (if len st \<noteq> 0
                   then (case put_line mem st of
                           Inl e \<Rightarrow> Inl e
                         | Inr st' \<Rightarrow> Inr (st'\<lparr>count := count st' + 1\<rparr>))
                   else Inr st) of
               Inl e \<Rightarrow> Inl e
             | Inr st' \<Rightarrow>
                 (case put_null st' of
                    Inl e \<Rightarrow> Inl e
                  | Inr st'' \<Rightarrow> Inr (st''\<lparr>start := pstr st''\<rparr>)))
          else Inr st)"

text \<open>One iteration: the first statement, \<^verbatim>\<open>pstr++\<close>, the last statement.\<close>

definition body :: "string \<Rightarrow> state \<Rightarrow> error + state" where
  "body mem st =
     (case scan_char mem st of
        Inl e \<Rightarrow> Inl e
      | Inr st' \<Rightarrow> at_terminator mem (st'\<lparr>pstr := pstr st' + 1\<rparr>))"

text \<open>
  Every iteration that returns has advanced \<open>pstr\<close> by one, to an offset inside the memory.
\<close>

lemma scan_char_pstr:
  "scan_char mem st = Inr st' \<Longrightarrow> pstr st' = pstr st"
  by (auto simp: scan_char_def put_line_def put_space_def
      split: sum.splits if_splits)

lemma at_terminator_pstr:
  "at_terminator mem st = Inr st' \<Longrightarrow> pstr st' = pstr st \<and> pstr st < length mem"
  by (auto simp: at_terminator_def put_line_def put_null_def deref_def
      split: sum.splits if_splits)

lemma body_pstr:
  "body mem st = Inr st' \<Longrightarrow> pstr st' = pstr st + 1 \<and> pstr st' < length mem"
  by (auto simp: body_def split: sum.splits
      dest!: scan_char_pstr at_terminator_pstr)

subsection \<open>The loop and the function\<close>

text \<open>
  \<^verbatim>\<open>while (*start != '\0') { ... }\<close> The guard reads \<open>start\<close>, not \<open>pstr\<close>. Every iteration
  that returns has advanced \<open>pstr\<close> by one inside the memory, so the recursion is
  well-founded on the number of bytes left after \<open>pstr\<close>.
\<close>

function loop :: "string \<Rightarrow> state \<Rightarrow> error + state" where
  "loop mem st =
     (case deref mem (start st) of
        Inl e \<Rightarrow> Inl e
      | Inr c \<Rightarrow>
          if c \<noteq> NUL then
            (case body mem st of
               Inl e \<Rightarrow> Inl e
             | Inr st' \<Rightarrow> loop mem st')
          else Inr st)"
  by pat_completeness auto
termination
  by (relation "measure (\<lambda>(mem, st). length mem - pstr st)")
    (auto dest!: body_pstr)

declare loop.simps [simp del]

definition init :: "buffer \<Rightarrow> state" where
  "init b = \<lparr>pstr = 0, start = 0, len = 0, count = 0, buf = b\<rparr>"

text \<open>The run of the function on the text, from the array \<open>b\<close> left by the previous call.\<close>

definition scan :: "buffer \<Rightarrow> string \<Rightarrow> error + state" where
  "scan b text = loop (text @ [NUL]) (init b)"

text \<open>\<^verbatim>\<open>return buf;\<close>\<close>

definition create_new_line_utf8strs :: "buffer \<Rightarrow> string \<Rightarrow> error + buffer" where
  "create_new_line_utf8strs b text =
     (case scan b text of Inl e \<Rightarrow> Inl e | Inr st \<Rightarrow> Inr (buf st))"

text \<open>
  What a caller reads from the returned array: the entries before the first NULL.
\<close>

definition lines_before_null :: "buffer \<Rightarrow> string list" where
  "lines_before_null b = map the (takeWhile (\<lambda>e. e \<noteq> None) b)"

definition call_lines :: "buffer \<Rightarrow> string \<Rightarrow> error + string list" where
  "call_lines b text =
     (case create_new_line_utf8strs b text of
        Inl e \<Rightarrow> Inl e
      | Inr b' \<Rightarrow> Inr (lines_before_null b'))"

section \<open>Notions used to state the properties\<close>

subsection \<open>A functional description of the loop\<close>

text \<open>
  The lines the loop stores from some point of the scan on: \<open>run\<close> is the pending run
  (the bytes since the last newline) and the second argument the text still to be read.
  A newline closes the pending run, empty runs becoming a single space; the end of the text
  closes a non-empty pending run and drops an empty one. Lemma \<open>loop_lines_from\<close> below
  proves that the loop computes exactly this.
\<close>

fun lines_from :: "string \<Rightarrow> string \<Rightarrow> string list" where
  "lines_from run [] = (if run = [] then [] else [run])"
| "lines_from run (c # cs) =
     (if c = NL then (if run = [] then '' '' else run) # lines_from [] cs
      else lines_from (run @ [c]) cs)"

text \<open>The value of \<open>len\<close> when the scan ends.\<close>

fun pending_len :: "string \<Rightarrow> string \<Rightarrow> nat" where
  "pending_len run [] = length run"
| "pending_len run (c # cs) =
     (if c = NL then pending_len [] cs else pending_len (run @ [c]) cs)"

text \<open>The array after storing the lines from slot \<open>n\<close> on, and NULL after the last.\<close>

fun store_lines :: "nat \<Rightarrow> string list \<Rightarrow> buffer \<Rightarrow> buffer" where
  "store_lines n [] bf = bf[n := None]"
| "store_lines n (l # ls) bf = store_lines (Suc n) ls (bf[n := Some l])"

text \<open>
  The number of lines a text yields: one for each newline, and one more for a non-empty
  run left pending at the terminator.
\<close>

definition num_lines :: "string \<Rightarrow> nat" where
  "num_lines text =
     count_list text NL + (if text = [] \<or> last text = NL then 0 else 1)"

subsection \<open>Segments of a text, and joining lines\<close>

text \<open>
  The final segment of a text: the bytes after its last newline (the whole text when it
  has no newline). This is the run pending when the scan reaches the terminator.
\<close>

definition final_segment :: "string \<Rightarrow> string" where
  "final_segment text = rev (takeWhile (\<lambda>c. c \<noteq> NL) (rev text))"

text \<open>
  The segments of a text: the maximal runs of bytes between two newline boundaries, or
  between the start or the end of the text and a newline boundary. A text with \<open>k\<close> newlines
  has \<open>k + 1\<close> segments, some of them possibly empty.
\<close>

fun split_nl :: "string \<Rightarrow> string list" where
  "split_nl [] = [[]]"
| "split_nl (c # cs) =
     (if c = NL then [] # split_nl cs else (c # hd (split_nl cs)) # tl (split_nl cs))"

text \<open>
  Joining lines with a newline between two neighbours, and the conversion of a
  single-space line back to the empty string.
\<close>

fun join_lines :: "string list \<Rightarrow> string" where
  "join_lines [] = []"
| "join_lines [l] = l"
| "join_lines (l # l' # ls) = l @ NL # join_lines (l' # ls)"

definition unspace :: "string \<Rightarrow> string" where
  "unspace l = (if l = '' '' then [] else l)"

section \<open>The loop computes the functional description\<close>

subsection \<open>Single iterations\<close>

text \<open>
  The memory is split as \<open>pre @ run @ c # zs\<close>: \<open>pre\<close> has been stored already, \<open>run\<close> is
  the pending run from \<open>start\<close> to \<open>pstr\<close>, and \<open>c\<close> is the byte under \<open>pstr\<close>. The lemmas
  below evaluate one iteration of the loop in each of its cases.
\<close>

lemma deref_mid:
  "deref (xs @ c # ys) (length xs) = Inr c"
  by (simp add: deref_def)

lemma deref_mid2:
  "deref (xs @ ys @ c # zs) (length xs + length ys) = Inr c"
  using deref_mid [of "xs @ ys" c zs] by simp

lemma deref_start:
  "deref (pre @ run @ c # zs) (length pre) = Inr (hd (run @ [c]))"
  by (cases run) (simp_all add: deref_def nth_append)

lemma take_drop_mid:
  "take (length run) (drop (length pre) (pre @ run @ zs)) = run"
  by simp

text \<open>One iteration on a newline that is not the last byte of the text.\<close>

lemma body_newline_more:
  assumes "n < buf_slots" "d \<noteq> NUL"
  shows "body (pre @ run @ NL # d # zs)
           \<lparr>pstr = length pre + length run, start = length pre, len = length run,
            count = n, buf = bf\<rparr> =
         Inr \<lparr>pstr = length pre + length run + 1, start = length pre + length run + 1,
              len = 0, count = n + 1,
              buf = bf[n := Some (if run = [] then '' '' else run)]\<rparr>"
proof -
  have d: "deref (pre @ run @ NL # d # zs) (Suc (length pre + length run)) = Inr d"
    using deref_mid [of "pre @ run @ [NL]" d zs] by simp
  show ?thesis
    by (cases "run = []")
      (use assms d in \<open>simp_all add: body_def scan_char_def at_terminator_def put_line_def
        put_space_def deref_mid deref_mid2\<close>)
qed

lemma body_newline_last:
  assumes "n < buf_slots"
  shows "body (pre @ run @ [NL, NUL])
           \<lparr>pstr = length pre + length run, start = length pre, len = length run,
            count = n, buf = bf\<rparr> =
         (if n + 1 < buf_slots
          then Inr \<lparr>pstr = length pre + length run + 1, start = length pre + length run + 1,
              len = 0, count = n + 1,
              buf = bf[n := Some (if run = [] then '' '' else run), n + 1 := None]\<rparr>
          else Inl BufferOverflow)"
proof -
  have d: "deref (pre @ run @ [NL, NUL]) (Suc (length pre + length run)) = Inr NUL"
    using deref_mid [of "pre @ run @ [NL]" NUL "[]"] by simp
  show ?thesis
    by (cases "run = []")
      (use assms d in \<open>simp_all add: body_def scan_char_def at_terminator_def put_line_def
        put_space_def put_null_def deref_mid deref_mid2\<close>)
qed

lemma body_newline_overflow:
  assumes "\<not> n < buf_slots"
  shows "body (pre @ run @ NL # zs)
           \<lparr>pstr = length pre + length run, start = length pre, len = length run,
            count = n, buf = bf\<rparr> = Inl BufferOverflow"
  using assms
  by (simp add: body_def scan_char_def put_line_def put_space_def deref_mid2)

lemma body_char_more:
  assumes "c \<noteq> NL" "d \<noteq> NUL"
  shows "body (pre @ run @ c # d # zs)
           \<lparr>pstr = length pre + length run, start = length pre, len = length run,
            count = n, buf = bf\<rparr> =
         Inr \<lparr>pstr = length pre + length run + 1, start = length pre,
              len = length run + 1, count = n, buf = bf\<rparr>"
proof -
  have d: "deref (pre @ run @ c # d # zs) (Suc (length pre + length run)) = Inr d"
    using deref_mid [of "pre @ run @ [c]" d zs] by simp
  show ?thesis
    using assms
    by (simp add: body_def scan_char_def at_terminator_def deref_mid2 d)
qed

lemma body_char_last:
  assumes "c \<noteq> NL"
  shows "body (pre @ run @ [c, NUL])
           \<lparr>pstr = length pre + length run, start = length pre, len = length run,
            count = n, buf = bf\<rparr> =
         (if n + 1 < buf_slots
          then Inr \<lparr>pstr = length pre + length run + 1, start = length pre + length run + 1,
              len = length run + 1, count = n + 1,
              buf = bf[n := Some (run @ [c]), n + 1 := None]\<rparr>
          else Inl BufferOverflow)"
proof -
  have d: "deref (pre @ run @ [c, NUL]) (Suc (length pre + length run)) = Inr NUL"
    using deref_mid [of "pre @ run @ [c]" NUL "[]"] by simp
  have t: "take (Suc (length run)) (drop (length pre) (pre @ run @ [c, NUL])) = run @ [c]"
    using take_drop_mid [of "run @ [c]" pre "[NUL]"] by simp
  show ?thesis
    using assms
    by (simp add: body_def scan_char_def at_terminator_def put_line_def
        put_null_def deref_mid2 d t)
qed

subsection \<open>The loop\<close>

text \<open>
  The loop invariant, as an equation: from a state with \<open>len = pstr - start\<close> at a byte of
  the text, the loop stores the lines of \<open>lines_from\<close> from slot \<open>count\<close> on and NULL after
  them, and ends with \<open>start\<close> and \<open>pstr\<close> at the terminator; it overflows the array exactly
  when the lines and the NULL do not fit.
\<close>

lemma loop_stop:
  "deref mem (start st) = Inr NUL \<Longrightarrow> loop mem st = Inr st"
  by (subst loop.simps) simp

lemma loop_step:
  "deref mem (start st) = Inr c \<Longrightarrow> c \<noteq> NUL \<Longrightarrow>
   loop mem st = (case body mem st of Inl e \<Rightarrow> Inl e | Inr st' \<Rightarrow> loop mem st')"
  by (subst loop.simps) simp

lemma loop_lines_from:
  assumes "rest \<noteq> []" "NUL \<notin> set run" "NUL \<notin> set rest"
  shows "loop (pre @ run @ rest @ [NUL])
           \<lparr>pstr = length pre + length run, start = length pre, len = length run,
            count = n, buf = bf\<rparr> =
         (if n + length (lines_from run rest) < buf_slots
          then Inr \<lparr>pstr = length pre + length run + length rest,
                    start = length pre + length run + length rest,
                    len = pending_len run rest,
                    count = n + length (lines_from run rest),
                    buf = store_lines n (lines_from run rest) bf\<rparr>
          else Inl BufferOverflow)"
  using assms
proof (induction rest arbitrary: pre run n bf)
  case Nil
  then show ?case by simp
next
  case (Cons c cs)
  let ?mem = "pre @ run @ (c # cs) @ [NUL]"
  let ?st = "\<lparr>pstr = length pre + length run, start = length pre, len = length run,
              count = n, buf = bf\<rparr>"
  have guard: "deref ?mem (start ?st) = Inr (hd (run @ [c]))"
    using deref_start [of pre run c "cs @ [NUL]"] by simp
  have nz: "hd (run @ [c]) \<noteq> NUL"
    using Cons.prems by (cases run) auto
  have step: "loop ?mem ?st =
      (case body ?mem ?st of Inl e \<Rightarrow> Inl e | Inr st' \<Rightarrow> loop ?mem st')"
    by (rule loop_step [OF guard nz])
  show ?case
  proof (cases cs)
    case Nil
    have stop: "loop (pre @ run @ [c, NUL])
        \<lparr>pstr = Suc (length pre + length run), start = Suc (length pre + length run),
         len = l, count = k, buf = bf'\<rparr> =
        Inr \<lparr>pstr = Suc (length pre + length run), start = Suc (length pre + length run),
         len = l, count = k, buf = bf'\<rparr>" for l k bf'
      using deref_mid [of "pre @ run @ [c]" NUL "[]"] by (intro loop_stop) simp
    show ?thesis
    proof (cases "c = NL")
      case True
      show ?thesis
      proof (cases "n < buf_slots")
        case True
        with \<open>c = NL\<close> Nil step body_newline_last [of n pre run bf] stop
        show ?thesis by simp
      next
        case False
        with \<open>c = NL\<close> Nil step body_newline_overflow [of n pre run "[NUL]" bf]
        show ?thesis by simp
      qed
    next
      case False
      with Nil step body_char_last [of c pre run n bf] stop
      show ?thesis by simp
    qed
  next
    case (Cons d ds)
    have d: "d \<noteq> NUL" "cs \<noteq> []" "NUL \<notin> set cs"
      using Cons Cons.prems by auto
    show ?thesis
    proof (cases "c = NL")
      case True
      show ?thesis
      proof (cases "n < buf_slots")
        case lt: True
        have b: "body ?mem ?st =
            Inr \<lparr>pstr = length (pre @ run @ [NL]) + length ([]::string),
                 start = length (pre @ run @ [NL]), len = length ([]::string), count = n + 1,
                 buf = bf[n := Some (if run = [] then '' '' else run)]\<rparr>"
          using body_newline_more [OF lt d(1), of pre run "ds @ [NUL]" bf] True Cons by simp
        have ih: "loop ((pre @ run @ [NL]) @ [] @ cs @ [NUL])
            \<lparr>pstr = length (pre @ run @ [NL]) + length ([]::string),
             start = length (pre @ run @ [NL]), len = length ([]::string), count = n + 1,
             buf = bf[n := Some (if run = [] then '' '' else run)]\<rparr> =
           (if n + 1 + length (lines_from [] cs) < buf_slots
            then Inr \<lparr>pstr = length (pre @ run @ [NL]) + length ([]::string) + length cs,
                    start = length (pre @ run @ [NL]) + length ([]::string) + length cs,
                    len = pending_len [] cs,
                    count = n + 1 + length (lines_from [] cs),
                    buf = store_lines (n + 1) (lines_from [] cs)
                            (bf[n := Some (if run = [] then '' '' else run)])\<rparr>
            else Inl BufferOverflow)"
          by (rule Cons.IH) (use d in simp_all)
        have m: "(pre @ run @ [NL]) @ [] @ cs @ [NUL] = ?mem"
          using True by simp
        show ?thesis
          unfolding step b using ih True unfolding m by simp
      next
        case False
        with True step body_newline_overflow [of n pre run "cs @ [NUL]" bf]
        show ?thesis by simp
      qed
    next
      case False
      have b: "body ?mem ?st =
          Inr \<lparr>pstr = length pre + length (run @ [c]), start = length pre,
               len = length (run @ [c]), count = n, buf = bf\<rparr>"
        using body_char_more [OF False d(1), of pre run "ds @ [NUL]" n bf] Cons by simp
      have ih: "loop (pre @ (run @ [c]) @ cs @ [NUL])
          \<lparr>pstr = length pre + length (run @ [c]), start = length pre,
           len = length (run @ [c]), count = n, buf = bf\<rparr> =
         (if n + length (lines_from (run @ [c]) cs) < buf_slots
          then Inr \<lparr>pstr = length pre + length (run @ [c]) + length cs,
                    start = length pre + length (run @ [c]) + length cs,
                    len = pending_len (run @ [c]) cs,
                    count = n + length (lines_from (run @ [c]) cs),
                    buf = store_lines n (lines_from (run @ [c]) cs) bf\<rparr>
          else Inl BufferOverflow)"
        by (rule Cons.IH) (use d Cons.prems False in auto)
      have m: "pre @ (run @ [c]) @ cs @ [NUL] = ?mem"
        by simp
      show ?thesis
        unfolding step b using ih False unfolding m by simp
    qed
  qed
qed

subsection \<open>The stored lines in the array\<close>

lemma length_store_lines:
  "length (store_lines n ls bf) = length bf"
  by (induction ls arbitrary: n bf) auto

lemma store_lines_nth:
  "n + length ls < length bf \<Longrightarrow>
   store_lines n ls bf ! i =
     (if i < n then bf ! i
      else if i < n + length ls then Some (ls ! (i - n))
      else if i = n + length ls then None
      else bf ! i)"
proof (induction ls arbitrary: n bf)
  case Nil
  then show ?case by (auto simp: nth_list_update)
next
  case (Cons l ls)
  then show ?case
    by (auto simp: nth_list_update nth_Cons')
qed

lemma store_lines_lines_nth:
  assumes "length ls < length bf" "i < length ls"
  shows "store_lines 0 ls bf ! i = Some (ls ! i)"
  using store_lines_nth [of 0 ls bf i] assms by simp

lemma store_lines_null_nth:
  assumes "length ls < length bf"
  shows "store_lines 0 ls bf ! length ls = None"
  using store_lines_nth [of 0 ls bf "length ls"] assms by simp

lemma store_lines_rest_nth:
  assumes "length ls < length bf" "length ls < i"
  shows "store_lines 0 ls bf ! i = bf ! i"
  using store_lines_nth [of 0 ls bf i] assms by simp

lemma take_store_lines:
  "n + length ls < length bf \<Longrightarrow>
   take (Suc (n + length ls)) (store_lines n ls bf) = take n bf @ map Some ls @ [None]"
  by (rule nth_equalityI) (auto simp: length_store_lines store_lines_nth nth_append)

lemma lines_before_null_store_lines:
  assumes "length ls < length bf"
  shows "lines_before_null (store_lines 0 ls bf) = ls"
proof -
  have "store_lines 0 ls bf =
      take (Suc (length ls)) (store_lines 0 ls bf) @ drop (Suc (length ls)) (store_lines 0 ls bf)"
    by simp
  also have "\<dots> = map Some ls @ None # drop (Suc (length ls)) (store_lines 0 ls bf)"
    using take_store_lines [of 0 ls bf] assms by simp
  finally have "store_lines 0 ls bf =
      map Some ls @ None # drop (Suc (length ls)) (store_lines 0 ls bf)" .
  moreover have "takeWhile (\<lambda>e. e \<noteq> None) (map Some ls @ None # rest) = map Some ls" for rest
    by (induction ls) simp_all
  ultimately have "takeWhile (\<lambda>e. e \<noteq> None) (store_lines 0 ls bf) = map Some ls"
    by metis
  then show ?thesis
    by (simp add: lines_before_null_def comp_def)
qed

lemma lines_before_null_initial:
  "lines_before_null initial_buf = []"
  by (simp add: lines_before_null_def initial_buf_def buf_slots_def)

lemma length_initial_buf:
  "length initial_buf = buf_slots"
  by (simp add: initial_buf_def)

subsection \<open>The whole scan\<close>

lemma length_lines_from:
  "length (lines_from run rest) =
     count_list rest NL +
     (if (if rest = [] then run = [] else last rest = NL) then 0 else 1)"
  by (induction rest arbitrary: run) auto

lemma length_lines_from_text:
  "length (lines_from [] text) = num_lines text"
  by (simp add: length_lines_from num_lines_def)

text \<open>
  The result of the whole function: the empty text leaves the state untouched, and a
  non-empty text stores its lines from slot 0 on.
\<close>

lemma scan_empty:
  "scan b [] = Inr (init b)"
  by (simp add: scan_def init_def loop_stop deref_def)

lemma scan_nonempty:
  assumes "text \<noteq> []" "NUL \<notin> set text"
  shows "scan b text =
     (if num_lines text < buf_slots
      then Inr \<lparr>pstr = length text, start = length text, len = pending_len [] text,
                count = num_lines text, buf = store_lines 0 (lines_from [] text) b\<rparr>
      else Inl BufferOverflow)"
  using loop_lines_from [of "text" "[]" "[]" 0 b] assms
  by (simp add: scan_def init_def length_lines_from_text)

lemma scan_cases:
  assumes "NUL \<notin> set text"
  shows "(num_lines text < buf_slots \<and>
          scan b text =
            Inr \<lparr>pstr = length text, start = length text, len = pending_len [] text,
                 count = num_lines text,
                 buf = (if text = [] then b else store_lines 0 (lines_from [] text) b)\<rparr>) \<or>
         (buf_slots \<le> num_lines text \<and> scan b text = Inl BufferOverflow)"
proof (cases "text = []")
  case True
  then show ?thesis
    by (simp add: scan_empty init_def num_lines_def buf_slots_def)
next
  case False
  then show ?thesis
    using scan_nonempty [OF False assms, of b] by (cases "num_lines text < buf_slots") simp_all
qed

lemma create_empty:
  "create_new_line_utf8strs b [] = Inr b"
  by (simp add: create_new_line_utf8strs_def scan_empty init_def)

lemma create_nonempty:
  assumes "text \<noteq> []" "NUL \<notin> set text"
  shows "create_new_line_utf8strs b text =
     (if num_lines text < buf_slots then Inr (store_lines 0 (lines_from [] text) b)
      else Inl BufferOverflow)"
  by (simp add: create_new_line_utf8strs_def scan_nonempty [OF assms])

lemma call_lines_empty:
  "call_lines b [] = Inr (lines_before_null b)"
  by (simp add: call_lines_def create_empty)

lemma call_lines_nonempty:
  assumes "text \<noteq> []" "NUL \<notin> set text" "length b = buf_slots"
  shows "call_lines b text =
     (if num_lines text < buf_slots then Inr (lines_from [] text) else Inl BufferOverflow)"
  using assms
  by (simp add: call_lines_def create_nonempty lines_before_null_store_lines
      length_lines_from_text)

lemma call_lines_cases:
  assumes "NUL \<notin> set text" "length b = buf_slots" "text \<noteq> []"
  shows "(num_lines text \<le> 511 \<and> call_lines b text = Inr (lines_from [] text)) \<or>
         (511 < num_lines text \<and> call_lines b text = Inl BufferOverflow)"
  using call_lines_nonempty [OF assms(3,1,2)] by (auto simp: buf_slots_def)

section \<open>Properties of the lines\<close>

subsection \<open>Number of lines\<close>

lemma lines_from_no_newline:
  "NL \<notin> set rest \<Longrightarrow> lines_from run rest = (if run @ rest = [] then [] else [run @ rest])"
  by (induction rest arbitrary: run) auto

lemma num_lines_no_newline:
  assumes "NL \<notin> set text" "text \<noteq> []"
  shows "num_lines text = 1"
proof -
  have "last text \<in> set text"
    using assms(2) by simp
  with assms have "last text \<noteq> NL"
    by metis
  with assms show ?thesis
    by (simp add: num_lines_def count_list_0_iff)
qed

lemma num_lines_trailing_newline:
  assumes "text \<noteq> []" "last text \<noteq> NL"
  shows "num_lines (text @ [NL]) = num_lines text"
  using assms by (simp add: num_lines_def)

lemma num_lines_ends_in_newline:
  assumes "text \<noteq> []" "last text = NL"
  shows "num_lines text = count_list text NL"
  using assms by (simp add: num_lines_def)

lemma lines_from_not_Nil:
  assumes "if rest = [] then run \<noteq> [] else last rest \<noteq> NL"
  shows "lines_from run rest \<noteq> []"
proof -
  have "length (lines_from run rest) = count_list rest NL + 1"
    using assms by (simp add: length_lines_from split: if_splits)
  then show ?thesis
    by auto
qed

subsection \<open>Contents of the lines\<close>

lemma lines_from_runs:
  assumes "l \<in> set (lines_from run rest)"
  shows "l \<noteq> [] \<and> (l = '' '' \<or> (\<exists>pre post. run @ rest = pre @ l @ post))"
  using assms
proof (induction rest arbitrary: run)
  case Nil
  then have "l = run" "run \<noteq> []"
    by (auto split: if_splits)
  then show ?case
    by (simp add: exI [of _ "[]"])
next
  case (Cons c cs)
  show ?case
  proof (cases "c = NL")
    case True
    with Cons.prems
    consider "l = (if run = [] then '' '' else run)" | "l \<in> set (lines_from [] cs)"
      by auto
    then show ?thesis
    proof cases
      case 1
      show ?thesis
      proof (cases "run = []")
        case True
        with 1 show ?thesis by simp
      next
        case False
        have "run @ c # cs = [] @ run @ (c # cs)"
          by simp
        with 1 False show ?thesis
          by (metis (full_types))
      qed
    next
      case 2
      from Cons.IH [OF 2] have ne: "l \<noteq> []"
        and alt: "l = '' '' \<or> (\<exists>pre post. cs = pre @ l @ post)"
        by auto
      from alt show ?thesis
      proof
        assume "l = '' ''"
        then show ?thesis by simp
      next
        assume "\<exists>pre post. cs = pre @ l @ post"
        then obtain pre post where "cs = pre @ l @ post"
          by blast
        then have "run @ c # cs = (run @ c # pre) @ l @ post"
          by simp
        with ne show ?thesis
          by blast
      qed
    qed
  next
    case False
    with Cons.prems have "l \<in> set (lines_from (run @ [c]) cs)"
      by simp
    from Cons.IH [OF this] show ?thesis
      by simp
  qed
qed

lemma lines_from_no_newline_all:
  "NL \<notin> set run \<Longrightarrow> \<forall>l \<in> set (lines_from run rest). NL \<notin> set l"
proof (induction rest arbitrary: run)
  case Nil
  then show ?case by simp
next
  case (Cons c cs)
  show ?case
  proof (cases "c = NL")
    case True
    have "\<forall>l \<in> set (lines_from [] cs). NL \<notin> set l"
      by (rule Cons.IH) simp
    with True Cons.prems show ?thesis
      by simp
  next
    case False
    have "\<forall>l \<in> set (lines_from (run @ [c]) cs). NL \<notin> set l"
      by (rule Cons.IH) (use False Cons.prems in auto)
    with False show ?thesis
      by simp
  qed
qed

lemma lines_from_no_newline_inside:
  assumes "l \<in> set (lines_from run rest)" "NL \<notin> set run"
  shows "NL \<notin> set l"
  using lines_from_no_newline_all [OF assms(2)] assms(1) by blast

lemma lines_from_space_at:
  assumes "j < length rest" "rest ! j = NL" "if j = 0 then run = [] else rest ! (j - 1) = NL"
  shows "count_list (take j rest) NL < length (lines_from run rest) \<and>
         lines_from run rest ! count_list (take j rest) NL = '' ''"
  using assms
proof (induction rest arbitrary: run j)
  case Nil
  then show ?case by simp
next
  case (Cons c cs)
  show ?case
  proof (cases j)
    case 0
    with Cons.prems show ?thesis by simp
  next
    case (Suc k)
    with Cons.prems have k: "k < length cs" "cs ! k = NL"
      by simp_all
    show ?thesis
    proof (cases "c = NL")
      case True
      have "if k = 0 then ([]::string) = [] else cs ! (k - 1) = NL"
        using Cons.prems Suc by (cases k) simp_all
      from Cons.IH [OF k this] True Suc show ?thesis
        by simp
    next
      case False
      with Cons.prems Suc have "k \<noteq> 0"
        by (cases k) auto
      then have "if k = 0 then run @ [c] = [] else cs ! (k - 1) = NL"
        using Cons.prems Suc by (cases k) simp_all
      from Cons.IH [OF k this] False Suc show ?thesis
        by simp
    qed
  qed
qed

subsection \<open>The last line\<close>

lemma final_segment_Cons:
  "final_segment (c # cs) =
     (if NL \<in> set cs then final_segment cs else if c = NL then cs else c # cs)"
proof (cases "NL \<in> set cs")
  case True
  then have "\<exists>x \<in> set (rev cs). \<not> x \<noteq> NL"
    by simp
  then have "takeWhile (\<lambda>c. c \<noteq> NL) (rev cs @ [c]) = takeWhile (\<lambda>c. c \<noteq> NL) (rev cs)"
    by (metis (mono_tags, lifting) takeWhile_append1)
  with True show ?thesis
    by (simp add: final_segment_def)
next
  case False
  then have "takeWhile (\<lambda>c. c \<noteq> NL) (rev cs @ [c]) = rev cs @ takeWhile (\<lambda>c. c \<noteq> NL) [c]"
    by (intro takeWhile_append2) auto
  with False show ?thesis
    by (simp add: final_segment_def)
qed

lemma final_segment_no_newline:
  assumes "NL \<notin> set text"
  shows "final_segment text = text"
proof -
  have "takeWhile (\<lambda>c. c \<noteq> NL) (rev text) = rev text"
    using assms by auto
  then show ?thesis
    unfolding final_segment_def by (simp only: rev_rev_ident)
qed

lemma last_lines_from:
  assumes "if rest = [] then run \<noteq> [] else last rest \<noteq> NL"
  shows "lines_from run rest \<noteq> [] \<and>
         last (lines_from run rest) = (if NL \<in> set rest then final_segment rest else run @ rest)"
  using assms
proof (induction rest arbitrary: run)
  case Nil
  then show ?case by simp
next
  case (Cons c cs)
  show ?case
  proof (cases "c = NL")
    case True
    with Cons.prems have cs: "cs \<noteq> []" "last cs \<noteq> NL"
      by (auto split: if_splits)
    then have "if cs = [] then ([]::string) \<noteq> [] else last cs \<noteq> NL"
      by simp
    from Cons.IH [OF this] True show ?thesis
      by (simp add: final_segment_Cons)
  next
    case False
    have "if cs = [] then run @ [c] \<noteq> [] else last cs \<noteq> NL"
      using Cons.prems by (auto split: if_splits)
    from Cons.IH [OF this] False show ?thesis
      by (simp add: final_segment_Cons)
  qed
qed

lemma last_lines_from_text:
  assumes "text \<noteq> []" "last text \<noteq> NL"
  shows "lines_from [] text \<noteq> [] \<and> last (lines_from [] text) = final_segment text"
  using last_lines_from [of "text" "[]"] assms
  by (auto simp: final_segment_no_newline)

lemma lines_from_trailing_newline:
  assumes "if rest = [] then run \<noteq> [] else last rest \<noteq> NL"
  shows "lines_from run (rest @ [NL]) = lines_from run rest"
  using assms
proof (induction rest arbitrary: run)
  case Nil
  then show ?case by simp
next
  case (Cons c cs)
  show ?case
  proof (cases "c = NL")
    case True
    with Cons.prems have "if cs = [] then ([]::string) \<noteq> [] else last cs \<noteq> NL"
      by (auto split: if_splits)
    from Cons.IH [OF this] True show ?thesis
      by simp
  next
    case False
    have "if cs = [] then run @ [c] \<noteq> [] else last cs \<noteq> NL"
      using Cons.prems by (auto split: if_splits)
    from Cons.IH [OF this] False show ?thesis
      by simp
  qed
qed

subsection \<open>Joining the lines\<close>

lemma split_nl_not_Nil:
  "split_nl text \<noteq> []"
  by (cases "text") simp_all

lemma join_lines_Cons:
  "ls \<noteq> [] \<Longrightarrow> join_lines (l # ls) = l @ NL # join_lines ls"
  by (cases ls) simp_all

lemma join_lines_split_nl:
  "join_lines (split_nl text) = text"
proof (induction "text")
  case Nil
  then show ?case by simp
next
  case (Cons c cs)
  obtain s ss where s: "split_nl cs = s # ss"
    using split_nl_not_Nil [of cs] by (cases "split_nl cs") auto
  with Cons show ?case
    by (cases ss) (auto simp: join_lines_Cons)
qed

lemma split_nl_run:
  "NL \<notin> set run \<Longrightarrow>
   split_nl (run @ rest) = (run @ hd (split_nl rest)) # tl (split_nl rest)"
  by (induction run) (auto simp: split_nl_not_Nil)

lemma join_unspace_lines_from:
  assumes "NL \<notin> set run"
    and "if rest = [] then run \<noteq> [] else last rest \<noteq> NL"
    and "'' '' \<notin> set (split_nl (run @ rest))"
  shows "join_lines (map unspace (lines_from run rest)) = run @ rest"
  using assms
proof (induction rest arbitrary: run)
  case Nil
  then show ?case
    using split_nl_run [of run "[]"] by (simp add: unspace_def)
next
  case (Cons c cs)
  show ?case
  proof (cases "c = NL")
    case True
    with Cons.prems have cs: "if cs = [] then ([]::string) \<noteq> [] else last cs \<noteq> NL"
      by (auto split: if_splits)
    have sp: "split_nl (run @ c # cs) = run # split_nl cs"
      using split_nl_run [of run "c # cs"] Cons.prems(1) True by simp
    with Cons.prems(3) have nsp: "run \<noteq> '' ''" "'' '' \<notin> set (split_nl ([] @ cs))"
      by auto
    have ih: "join_lines (map unspace (lines_from [] cs)) = [] @ cs"
      by (rule Cons.IH) (use cs nsp in simp_all)
    have head: "unspace (if run = [] then '' '' else run) = run"
      using nsp(1) by (simp add: unspace_def)
    have "map unspace (lines_from [] cs) \<noteq> []"
      using lines_from_not_Nil [OF cs] by simp
    then show ?thesis
      using True ih head by (simp add: join_lines_Cons)
  next
    case False
    have "join_lines (map unspace (lines_from (run @ [c]) cs)) = (run @ [c]) @ cs"
      by (rule Cons.IH) (use Cons.prems False in \<open>auto split: if_splits\<close>)
    with False show ?thesis
      by simp
  qed
qed

section \<open>The properties of the specification\<close>

subsection \<open>Number of lines of a text without trailing newline\<close>

text \<open>
  C1, as stated, at the empty text: it has no newline, so the claim promises one line
  entry; the call on the pristine array returns no entry.
\<close>

theorem empty_text_has_no_line:
  "call_lines initial_buf [] = Inr [] \<and>
   length ([] :: string list) \<noteq> count_list ([] :: string) NL + 1"
  by (simp add: call_lines_empty lines_before_null_initial)

text \<open>
  C1, amended. For a non-empty text with \<open>k\<close> newlines that does not end in a newline, the
  call returns an array with exactly \<open>k + 1\<close> entries before the first NULL. The call fails
  only by the write outside the array, when \<open>k + 1\<close> exceeds 511.
\<close>

theorem line_count_of_nonempty_text:
  assumes "NUL \<notin> set text" and "length b = buf_slots" and "text \<noteq> []"
    and "last text \<noteq> NL"
  shows "case call_lines b text of
           Inr ls \<Rightarrow> length ls = count_list text NL + 1
         | Inl e \<Rightarrow> e = BufferOverflow \<and> 511 < count_list text NL + 1"
  using call_lines_cases [OF assms(1,2,3)] assms(3,4)
  by (auto simp: length_lines_from_text num_lines_def)

theorem line_count_of_nonempty_text_witness:
  "call_lines initial_buf ''a\<newline>b\<newline>c'' = Inr [''a'', ''b'', ''c''] \<and>
   length [''a'', ''b'', ''c''] = count_list ''a\<newline>b\<newline>c'' NL + 1"
proof -
  have "call_lines initial_buf ''a\<newline>b\<newline>c'' = Inr [''a'', ''b'', ''c'']"
    by (simp add: call_lines_nonempty length_initial_buf num_lines_def buf_slots_def)
  with line_count_of_nonempty_text [of "''a\<newline>b\<newline>c''" initial_buf]
  show ?thesis
    by (simp add: length_initial_buf)
qed

subsection \<open>The empty text\<close>

text \<open>
  C2. The empty text never enters the loop, so the call returns the array as the previous
  call left it. After a call on ''a'' the call on the empty text returns an array whose
  slot 0 still holds the line ''a'' of the previous call, not NULL, and a caller reads one
  stale line from it.
\<close>

theorem empty_text_returns_stale_array:
  "create_new_line_utf8strs initial_buf ''a'' = Inr (initial_buf[0 := Some ''a'', 1 := None]) \<and>
   create_new_line_utf8strs (initial_buf[0 := Some ''a'', 1 := None]) [] =
     Inr (initial_buf[0 := Some ''a'', 1 := None]) \<and>
   (initial_buf[0 := Some ''a'', 1 := None]) ! 0 = Some ''a'' \<and>
   call_lines (initial_buf[0 := Some ''a'', 1 := None]) [] = Inr [''a'']"
proof -
  let ?b1 = "initial_buf[0 := Some ''a'', 1 := None]"
  have b1: "?b1 = store_lines 0 [''a''] initial_buf"
    by simp
  have first: "create_new_line_utf8strs initial_buf ''a'' = Inr ?b1"
    by (simp add: create_nonempty num_lines_def buf_slots_def)
  have slot: "?b1 ! 0 = Some ''a''"
    by (simp add: length_initial_buf buf_slots_def)
  have read: "lines_before_null ?b1 = [''a'']"
    unfolding b1 by (rule lines_before_null_store_lines) (simp add: length_initial_buf buf_slots_def)
  show ?thesis
    using first slot read by (simp add: create_empty call_lines_empty)
qed

subsection \<open>The run pending at the terminator\<close>

text \<open>
  C3, as stated, at the text ''a'' followed by two newlines: it ends in a newline and
  yields two lines, while the same text without the final newline yields one.
\<close>

theorem second_trailing_newline_adds_a_line:
  "call_lines initial_buf ''a\<newline>\<newline>'' = Inr [''a'', '' ''] \<and>
   call_lines initial_buf ''a\<newline>'' = Inr [''a''] \<and>
   length [''a'', '' ''] \<noteq> length [''a'']"
  by (simp add: call_lines_nonempty length_initial_buf num_lines_def buf_slots_def)

text \<open>
  C3, amended. For a non-empty text: when it does not end in a newline, the returned lines
  end with the pending run (the bytes after the last newline), and the text with one
  newline appended gives the same result, line for line; when it ends in a newline, it
  yields as many lines as it has newlines, none for the empty run at the terminator. The
  call fails only by the write outside the array, for a text of more than 511 lines.
\<close>

theorem pending_run_at_terminator:
  assumes "NUL \<notin> set text" and "length b = buf_slots" and "text \<noteq> []"
  shows "case call_lines b text of
           Inr ls \<Rightarrow>
             (last text \<noteq> NL \<longrightarrow>
                ls \<noteq> [] \<and> last ls = final_segment text \<and>
                call_lines b (text @ [NL]) = Inr ls) \<and>
             (last text = NL \<longrightarrow> length ls = count_list text NL)
         | Inl e \<Rightarrow> e = BufferOverflow \<and> 511 < num_lines text"
proof (cases "last text = NL")
  case True
  with call_lines_cases [OF assms] assms(3) show ?thesis
    by (auto simp: length_lines_from_text num_lines_ends_in_newline)
next
  case False
  have "if text = [] then ([]::string) \<noteq> [] else last text \<noteq> NL"
    using assms(3) False by simp
  from lines_from_trailing_newline [OF this]
  have same: "lines_from [] (text @ [NL]) = lines_from [] text" .
  have "call_lines b (text @ [NL]) =
      (if num_lines (text @ [NL]) < buf_slots then Inr (lines_from [] (text @ [NL]))
       else Inl BufferOverflow)"
    by (rule call_lines_nonempty) (use assms in auto)
  then have app: "call_lines b (text @ [NL]) =
      (if num_lines text < buf_slots then Inr (lines_from [] text) else Inl BufferOverflow)"
    using same num_lines_trailing_newline [OF assms(3) False] by simp
  from call_lines_cases [OF assms] False app last_lines_from_text [OF assms(3) False]
  show ?thesis
    by (auto simp: buf_slots_def)
qed

theorem pending_run_at_terminator_witness:
  "call_lines initial_buf ''a\<newline>bc'' = Inr [''a'', ''bc''] \<and>
   final_segment ''a\<newline>bc'' = ''bc'' \<and>
   call_lines initial_buf (''a\<newline>bc'' @ [NL]) = Inr [''a'', ''bc'']"
proof -
  have "call_lines initial_buf ''a\<newline>bc'' = Inr [''a'', ''bc'']"
    by (simp add: call_lines_nonempty length_initial_buf num_lines_def buf_slots_def)
  with pending_run_at_terminator [of "''a\<newline>bc''" initial_buf]
  show ?thesis
    by (simp add: length_initial_buf)
qed

subsection \<open>Empty segments\<close>

text \<open>
  C4. An empty segment that a newline closes (the newline at offset \<open>j\<close> of the text stands
  at the start of the text or right after another newline) is stored as the single space,
  a string of length 1: its slot, the number of newlines before offset \<open>j\<close>, is below
  \<open>count\<close> and holds '' ''. The call fails only by the write outside the array, for a
  text of more than 511 lines. The text ''a'', two newlines, ''b'' gives the lines ''a'',
  '' '', ''b''.
\<close>

theorem empty_segment_is_stored_as_space:
  assumes "NUL \<notin> set text" and "length b = buf_slots"
    and "j < length text" and "text ! j = NL" and "j = 0 \<or> text ! (j - 1) = NL"
  shows "case scan b text of
           Inr st \<Rightarrow>
             count_list (take j text) NL < count st \<and>
             (\<exists>l. buf st ! count_list (take j text) NL = Some l \<and> l = '' '' \<and> length l = 1)
         | Inl e \<Rightarrow> e = BufferOverflow \<and> 511 < num_lines text"
proof (cases "scan b text")
  case (Inl e)
  with scan_cases [OF assms(1), of b] show ?thesis
    by (auto simp: buf_slots_def)
next
  case (Inr st)
  let ?ls = "lines_from [] text"
  let ?i = "count_list (take j text) NL"
  have ne: "text \<noteq> []"
    using assms(3) by auto
  from scan_cases [OF assms(1), of b] Inr ne
  have st: "num_lines text < buf_slots" "count st = num_lines text"
    "buf st = store_lines 0 ?ls b"
    by auto
  have "if j = 0 then ([]::string) = [] else text ! (j - 1) = NL"
    using assms(5) by auto
  from lines_from_space_at [OF assms(3,4) this]
  have i: "?i < length ?ls" and sp: "?ls ! ?i = '' ''"
    by simp_all
  have "buf st ! ?i = Some (?ls ! ?i)"
    using st i assms(2) by (simp add: store_lines_lines_nth length_lines_from_text)
  with i sp st Inr show ?thesis
    by (simp add: length_lines_from_text)
qed

theorem empty_segment_is_stored_as_space_witness:
  "call_lines initial_buf ''a\<newline>\<newline>b'' = Inr [''a'', '' '', ''b''] \<and>
   scan initial_buf ''a\<newline>\<newline>b'' =
     Inr \<lparr>pstr = 4, start = 4, len = 1, count = 3,
          buf = store_lines 0 [''a'', '' '', ''b''] initial_buf\<rparr> \<and>
   store_lines 0 [''a'', '' '', ''b''] initial_buf ! 1 = Some '' ''"
proof -
  have run: "scan initial_buf ''a\<newline>\<newline>b'' =
     Inr \<lparr>pstr = 4, start = 4, len = 1, count = 3,
          buf = store_lines 0 [''a'', '' '', ''b''] initial_buf\<rparr>"
    by (simp add: scan_nonempty num_lines_def buf_slots_def)
  have lines: "call_lines initial_buf ''a\<newline>\<newline>b'' = Inr [''a'', '' '', ''b'']"
    by (simp add: call_lines_nonempty length_initial_buf num_lines_def buf_slots_def)
  show ?thesis
    using empty_segment_is_stored_as_space [OF _ length_initial_buf, of "''a\<newline>\<newline>b''" 2]
      run lines
    by simp
qed

subsection \<open>Joining the lines back\<close>

text \<open>
  C5, as stated, at the text of one space: it has no trailing newline and yields the line
  '' ''; converted back to the empty string and joined, the lines give the empty text.
\<close>

theorem single_space_text_is_not_restored:
  "call_lines initial_buf '' '' = Inr ['' ''] \<and>
   join_lines (map unspace ['' '']) \<noteq> '' ''"
  by (simp add: call_lines_nonempty length_initial_buf num_lines_def buf_slots_def unspace_def)

text \<open>
  C5, amended. For a non-empty text that does not end in a newline and in which no line
  (segment between newline boundaries) is exactly one space, joining the returned lines
  with newlines, each single-space line first converted back to the empty string, gives the
  text. The call fails only by the write outside the array, for more than 511 lines.
\<close>

theorem join_restores_text:
  assumes "NUL \<notin> set text" and "length b = buf_slots" and "text \<noteq> []"
    and "last text \<noteq> NL" and "'' '' \<notin> set (split_nl text)"
  shows "case call_lines b text of
           Inr ls \<Rightarrow> join_lines (map unspace ls) = text
         | Inl e \<Rightarrow> e = BufferOverflow \<and> 511 < num_lines text"
proof -
  have "join_lines (map unspace (lines_from [] text)) = [] @ text"
    by (rule join_unspace_lines_from) (use assms in simp_all)
  with call_lines_cases [OF assms(1,2,3)] show ?thesis
    by auto
qed

theorem join_restores_text_witness:
  "call_lines initial_buf ''a\<newline>\<newline>b c'' = Inr [''a'', '' '', ''b c''] \<and>
   join_lines (map unspace [''a'', '' '', ''b c'']) = ''a\<newline>\<newline>b c''"
proof -
  have "call_lines initial_buf ''a\<newline>\<newline>b c'' = Inr [''a'', '' '', ''b c'']"
    by (simp add: call_lines_nonempty length_initial_buf num_lines_def buf_slots_def)
  with join_restores_text [of "''a\<newline>\<newline>b c''" initial_buf]
  show ?thesis
    by (simp add: length_initial_buf)
qed

subsection \<open>The sentinel\<close>

text \<open>
  C6. For a non-empty text, the lines stored by the call are followed by one NULL, in the
  slot right after the last line: slots below \<open>count\<close> hold lines, slot \<open>count\<close> holds NULL,
  the slots after it are as the previous call left them, and a caller reading up to the
  first NULL gets exactly the \<open>count\<close> lines. The call fails only by the write outside the
  array, for a text of more than 511 lines.
\<close>

theorem null_follows_last_line:
  assumes "NUL \<notin> set text" and "length b = buf_slots" and "text \<noteq> []"
  shows "case scan b text of
           Inr st \<Rightarrow> count st < buf_slots \<and>
                     (\<forall>i < count st. buf st ! i \<noteq> None) \<and>
                     buf st ! count st = None \<and>
                     (\<forall>i. count st < i \<and> i < buf_slots \<longrightarrow> buf st ! i = b ! i) \<and>
                     length (lines_before_null (buf st)) = count st
         | Inl e \<Rightarrow> e = BufferOverflow \<and> 511 < num_lines text"
  using scan_cases [OF assms(1), of b] assms(2,3)
  by (auto simp: buf_slots_def length_lines_from_text store_lines_lines_nth
      store_lines_null_nth [of "lines_from [] text" b, simplified length_lines_from_text]
      store_lines_rest_nth lines_before_null_store_lines)

theorem null_follows_last_line_witness:
  "\<exists>st. scan initial_buf ''a\<newline>b'' = Inr st \<and> count st = 2 \<and> buf st ! 0 \<noteq> None \<and>
     buf st ! 1 \<noteq> None \<and> buf st ! 2 = None \<and> lines_before_null (buf st) = [''a'', ''b'']"
proof -
  have "scan initial_buf ''a\<newline>b'' =
      Inr \<lparr>pstr = 3, start = 3, len = 1, count = 2,
           buf = store_lines 0 [''a'', ''b''] initial_buf\<rparr>"
    by (simp add: scan_nonempty num_lines_def buf_slots_def)
  moreover have "lines_before_null (store_lines 0 [''a'', ''b''] initial_buf) = [''a'', ''b'']"
    by (rule lines_before_null_store_lines) (simp add: initial_buf_def buf_slots_def)
  ultimately show ?thesis
    using null_follows_last_line [of "''a\<newline>b''" initial_buf]
    by (simp add: length_initial_buf)
qed

subsection \<open>Capacity of the static array\<close>

text \<open>
  C7. When the text yields at most 511 lines, no write of the call leaves the array: the
  call ends without \<open>BufferOverflow\<close>, which the model raises at any write to a slot with
  index 512 or more. The final \<open>count\<close> is the number of lines of the text, so the lines
  stored and the NULL after them take at most 512 slots. The bound is exact: a text of more
  than 511 lines makes the call write outside the array.
\<close>

theorem writes_stay_in_bounds:
  assumes "NUL \<notin> set text" and "length b = 512"
  shows "(num_lines text \<le> 511 \<longrightarrow>
            (\<exists>st. scan b text = Inr st \<and> count st = num_lines text \<and> count st + 1 \<le> 512 \<and>
                  length (buf st) = 512)) \<and>
         (511 < num_lines text \<longrightarrow> scan b text = Inl BufferOverflow)"
  using scan_cases [OF assms(1), of b] assms(2)
  by (auto simp: buf_slots_def length_store_lines)

theorem writes_stay_in_bounds_witness:
  "\<exists>st. scan initial_buf ''a\<newline>b'' = Inr st \<and> count st = 2 \<and> length (buf st) = 512"
  using writes_stay_in_bounds [of "''a\<newline>b''" initial_buf]
  by (auto simp: num_lines_def initial_buf_def buf_slots_def)

subsection \<open>A text without newline\<close>

text \<open>
  C8. A non-empty text without a newline gives exactly one line, the whole text: the array
  holds the text in slot 0 and NULL in slot 1, and a caller reads the single line.
  The text ''hello'' gives the line ''hello''.
\<close>

theorem text_without_newline_is_one_line:
  assumes "NUL \<notin> set text" and "NL \<notin> set text" and "text \<noteq> []"
    and "length b = buf_slots"
  shows "create_new_line_utf8strs b text = Inr (b[0 := Some text, 1 := None]) \<and>
         call_lines b text = Inr [text]"
  using assms
  by (simp add: create_nonempty call_lines_nonempty num_lines_no_newline
      lines_from_no_newline buf_slots_def)

theorem text_without_newline_is_one_line_witness:
  "create_new_line_utf8strs initial_buf ''hello'' =
     Inr (initial_buf[0 := Some ''hello'', 1 := None]) \<and>
   call_lines initial_buf ''hello'' = Inr [''hello'']"
  using text_without_newline_is_one_line [of "''hello''" initial_buf]
  by (simp add: length_initial_buf)

subsection \<open>What a line is\<close>

text \<open>
  C9. Every line the call has stored (the slots below \<open>count\<close> of the final state) is a
  non-empty string without a newline, and is either the single space or a copy of a
  contiguous run of bytes of the text. The call fails only by the write outside the array,
  for a text of more than 511 lines.
\<close>

theorem stored_lines_are_runs_of_text:
  assumes "NUL \<notin> set text" and "length b = buf_slots"
  shows "case scan b text of
           Inr st \<Rightarrow>
             \<forall>i < count st. \<exists>l. buf st ! i = Some l \<and> 1 \<le> length l \<and> NL \<notin> set l \<and>
               (l = '' '' \<or> (\<exists>pre post. text = pre @ l @ post))
         | Inl e \<Rightarrow> e = BufferOverflow \<and> 511 < num_lines text"
proof (cases "scan b text")
  case (Inl e)
  with scan_cases [OF assms(1), of b] show ?thesis
    by (auto simp: buf_slots_def)
next
  case (Inr st)
  let ?ls = "lines_from [] text"
  from scan_cases [OF assms(1), of b] Inr
  have st: "num_lines text < buf_slots" "count st = num_lines text"
    "buf st = (if text = [] then b else store_lines 0 ?ls b)"
    by auto
  have "\<exists>l. buf st ! i = Some l \<and> 1 \<le> length l \<and> NL \<notin> set l \<and>
      (l = '' '' \<or> (\<exists>pre post. text = pre @ l @ post))" if lt: "i < count st" for i
  proof -
    have ne: "text \<noteq> []"
      using st(2) lt by (auto simp: num_lines_def)
    have i: "i < length ?ls"
      using lt st(2) by (simp add: length_lines_from_text)
    then have mem: "?ls ! i \<in> set ?ls"
      by simp
    have slot: "buf st ! i = Some (?ls ! i)"
      using st ne i assms(2) by (simp add: store_lines_lines_nth length_lines_from_text)
    from lines_from_runs [OF mem] lines_from_no_newline_inside [OF mem] slot
    show ?thesis
      by (cases "?ls ! i") auto
  qed
  with Inr show ?thesis
    by simp
qed

theorem stored_lines_are_runs_of_text_witness:
  "scan initial_buf ''ab\<newline>\<newline>cd'' =
     Inr \<lparr>pstr = 6, start = 6, len = 2, count = 3,
          buf = store_lines 0 [''ab'', '' '', ''cd''] initial_buf\<rparr> \<and>
   (\<exists>l. store_lines 0 [''ab'', '' '', ''cd''] initial_buf ! 2 = Some l \<and> 1 \<le> length l \<and>
        NL \<notin> set l \<and> (l = '' '' \<or> (\<exists>pre post. ''ab\<newline>\<newline>cd'' = pre @ l @ post)))"
proof -
  have run: "scan initial_buf ''ab\<newline>\<newline>cd'' =
     Inr \<lparr>pstr = 6, start = 6, len = 2, count = 3,
          buf = store_lines 0 [''ab'', '' '', ''cd''] initial_buf\<rparr>"
    by (simp add: scan_nonempty num_lines_def buf_slots_def)
  from stored_lines_are_runs_of_text [OF _ length_initial_buf, of "''ab\<newline>\<newline>cd''"] run
  have "\<forall>i<3. \<exists>l. store_lines 0 [''ab'', '' '', ''cd''] initial_buf ! i = Some l \<and>
      1 \<le> length l \<and> NL \<notin> set l \<and>
      (l = '' '' \<or> (\<exists>pre post. ''ab\<newline>\<newline>cd'' = pre @ l @ post))"
    by simp
  then have "\<exists>l. store_lines 0 [''ab'', '' '', ''cd''] initial_buf ! 2 = Some l \<and>
      1 \<le> length l \<and> NL \<notin> set l \<and>
      (l = '' '' \<or> (\<exists>pre post. ''ab\<newline>\<newline>cd'' = pre @ l @ post))"
    by (rule allE [of _ 2]) simp
  with run show ?thesis
    by simp
qed

subsection \<open>Termination\<close>

text \<open>
  C10. The scan of a NUL-terminated text always ends, and never reads outside the text
  and its terminator: the loop returns a final state in which \<open>start\<close> and \<open>pstr\<close> both point
  at the terminating NUL, where the guard \<^verbatim>\<open>*start != '\0'\<close> fails; the only other way
  the run ends is the write outside the array, for a text of more than 511 lines. From any
  state, an iteration that returns has advanced \<open>pstr\<close> by exactly one and not beyond the
  terminator: this is the measure, the number of bytes left after \<open>pstr\<close>, by which the
  function \<open>loop\<close> is total.
\<close>

theorem scan_ends_at_terminator:
  assumes "NUL \<notin> set text"
  shows "(case scan b text of
            Inr st \<Rightarrow> pstr st = length text \<and> start st = length text \<and>
                      deref (text @ [NUL]) (start st) = Inr NUL
          | Inl e \<Rightarrow> e = BufferOverflow \<and> 511 < num_lines text) \<and>
         (\<forall>st st'. body (text @ [NUL]) st = Inr st' \<longrightarrow>
            pstr st' = pstr st + 1 \<and> pstr st' \<le> length text)"
proof
  show "case scan b text of
          Inr st \<Rightarrow> pstr st = length text \<and> start st = length text \<and>
                    deref (text @ [NUL]) (start st) = Inr NUL
        | Inl e \<Rightarrow> e = BufferOverflow \<and> 511 < num_lines text"
    using scan_cases [OF assms, of b] by (auto simp: buf_slots_def deref_def)
next
  have "pstr st' = pstr st + 1 \<and> pstr st' \<le> length text"
    if "body (text @ [NUL]) st = Inr st'" for st st'
    using body_pstr [OF that] by simp
  then show "\<forall>st st'. body (text @ [NUL]) st = Inr st' \<longrightarrow>
      pstr st' = pstr st + 1 \<and> pstr st' \<le> length text"
    by blast
qed

theorem scan_ends_at_terminator_witness:
  "\<exists>st. scan initial_buf ''ab\<newline>c'' = Inr st \<and> pstr st = 4 \<and> start st = 4"
  using scan_ends_at_terminator [of "''ab\<newline>c''" initial_buf]
  by (auto simp: num_lines_def split: sum.splits)

end
